theory Spec2Isabelle
  imports Main "HOL-Library.Multiset"
begin

section \<open>The draw store and the parsing of stored draws\<close>

text \<open>
  The analyzer of \<^verbatim>\<open>lottery_analyzer.py\<close> reads one text column, \<^verbatim>\<open>numbers\<close>, of the table
  \<^verbatim>\<open><lottery_type>_results\<close>. The database is the environment of the program: it is
  modelled by the answer it gives to that query, a list of rows per table name, each row
  holding the column value (\<open>None\<close> for SQL NULL). Stored text is modelled over ASCII:
  a \<open>char\<close> is one code point below 128, which is what the loaders of this repository
  write (\<^verbatim>\<open>','.join(map(str, numbers))\<close>).
\<close>

type_synonym row = "string option"
type_synonym draw_store = "string \<Rightarrow> row list"

definition table_name :: "string \<Rightarrow> string" where
  "table_name lottery_type = lottery_type @ ''_results''"

text \<open>\<^verbatim>\<open>str.split(',')\<close>: the pieces between commas; an empty string gives one empty piece.\<close>

fun split_comma :: "string \<Rightarrow> string list" where
  "split_comma [] = [[]]"
| "split_comma (c # cs) =
     (if c = CHR '','' then [] # split_comma cs
      else (case split_comma cs of
              [] \<Rightarrow> [[c]]
            | t # ts \<Rightarrow> (c # t) # ts))"

text \<open>\<^verbatim>\<open>str.isspace\<close> on ASCII: tab, line feed, vertical tab, form feed, carriage return,
  the four separators 0x1c..0x1f and the blank.\<close>

definition is_space :: "char \<Rightarrow> bool" where
  "is_space c = (let n = (of_char c :: nat) in (9 \<le> n \<and> n \<le> 13) \<or> (28 \<le> n \<and> n \<le> 32))"

definition strip :: "string \<Rightarrow> string" where
  "strip s = rev (dropWhile is_space (rev (dropWhile is_space s)))"

definition is_digit_char :: "char \<Rightarrow> bool" where
  "is_digit_char c = (let n = (of_char c :: nat) in 48 \<le> n \<and> n \<le> 57)"

text \<open>\<^verbatim>\<open>str.isdigit\<close>: at least one character, and every character a digit.\<close>

definition isdigit :: "string \<Rightarrow> bool" where
  "isdigit s = (s \<noteq> [] \<and> list_all is_digit_char s)"

definition digit_val :: "char \<Rightarrow> int" where
  "digit_val c = int (of_char c) - 48"

text \<open>\<^verbatim>\<open>int(n)\<close> on a token whose stripped form is all digits: Python ignores the
  surrounding white space and reads the digits in base ten (the interpreter's limit on the
  length of a decimal string is not modelled).\<close>

definition py_int :: "string \<Rightarrow> int" where
  "py_int n = foldl (\<lambda>a c. 10 * a + digit_val c) 0 (strip n)"

text \<open>One element of the comprehension
  \<^verbatim>\<open>[int(n) for n in numbers_str.split(',') if n.strip().isdigit()]\<close>.\<close>

definition parse_token :: "string \<Rightarrow> int option" where
  "parse_token n = (if isdigit (strip n) then Some (py_int n) else None)"

definition parse_numbers :: "string \<Rightarrow> int list" where
  "parse_numbers numbers_str = List.map_filter parse_token (split_comma numbers_str)"

text \<open>The loop over \<^verbatim>\<open>cursor.fetchall()\<close>: a row whose column is NULL or the empty string
  is skipped (\<^verbatim>\<open>if numbers_str:\<close>), every other row appends one draw.\<close>

fun draws_of_rows :: "row list \<Rightarrow> int list list" where
  "draws_of_rows [] = []"
| "draws_of_rows (None # rows) = draws_of_rows rows"
| "draws_of_rows (Some numbers_str # rows) =
     (if numbers_str \<noteq> [] then parse_numbers numbers_str # draws_of_rows rows
      else draws_of_rows rows)"

definition get_all_drawn_numbers :: "draw_store \<Rightarrow> string \<Rightarrow> int list list" where
  "get_all_drawn_numbers db lottery_type = draws_of_rows (db (table_name lottery_type))"

text \<open>A database that holds the rows \<open>rows\<close> in the results table of one lottery type and
  no row in any other table.\<close>

definition single_table :: "string \<Rightarrow> row list \<Rightarrow> draw_store" where
  "single_table lottery_type rows =
     (\<lambda>name. if name = table_name lottery_type then rows else [])"

section \<open>The frequency table\<close>

text \<open>
  A \<^verbatim>\<open>Counter\<close> is a dictionary, and a Python dictionary keeps its keys in the order of
  their first insertion; the rankings below depend on that order, so the table is an
  association list. \<^verbatim>\<open>Counter.update(draw)\<close> adds one to the count of every element of
  the draw in turn: a known key keeps its place, a new key goes to the end with count 1.
\<close>

type_synonym frequency = "(int \<times> int) list"

fun counter_add :: "frequency \<Rightarrow> int \<Rightarrow> frequency" where
  "counter_add [] x = [(x, 1)]"
| "counter_add ((k, c) # kvs) x =
     (if k = x then (k, c + 1) # kvs else (k, c) # counter_add kvs x)"

definition counter_update :: "frequency \<Rightarrow> int list \<Rightarrow> frequency" where
  "counter_update fr draw = foldl counter_add fr draw"

definition count_draws :: "int list list \<Rightarrow> frequency" where
  "count_draws all_draws = foldl counter_update [] all_draws"

definition calculate_frequency :: "draw_store \<Rightarrow> string \<Rightarrow> frequency" where
  "calculate_frequency db lottery_type = count_draws (get_all_drawn_numbers db lottery_type)"

text \<open>\<^verbatim>\<open>frequency.get(k, 0)\<close>: the count stored for a key, 0 when the key is absent.\<close>

definition count_of :: "frequency \<Rightarrow> int \<Rightarrow> int" where
  "count_of fr k = (case map_of fr k of None \<Rightarrow> 0 | Some c \<Rightarrow> c)"

section \<open>Rankings\<close>

text \<open>
  \<^verbatim>\<open>sorted(items, key=...)\<close> is a stable ascending sort. With \<^verbatim>\<open>reverse=True\<close> the list
  is reversed, sorted stably and reversed again, so that elements with equal keys still
  keep their original order. \<^verbatim>\<open>xs[:count]\<close> takes the first \<^verbatim>\<open>count\<close> elements for a
  count that is not negative (written \<open>cnt\<close> below) and drops the last \<^verbatim>\<open>-count\<close> elements for a negative one.
\<close>

definition py_sorted :: "('a \<Rightarrow> int) \<Rightarrow> bool \<Rightarrow> 'a list \<Rightarrow> 'a list" where
  "py_sorted key reverse xs =
     (if reverse then rev (sort_key key (rev xs)) else sort_key key xs)"

definition py_take :: "int \<Rightarrow> 'a list \<Rightarrow> 'a list" where
  "py_take cnt xs =
     (if cnt < 0 then take (length xs - nat (- cnt)) xs else take (nat cnt) xs)"

definition get_most_frequent_numbers :: "draw_store \<Rightarrow> string \<Rightarrow> int \<Rightarrow> (int \<times> int) list" where
  "get_most_frequent_numbers db lottery_type cnt =
     py_take cnt (py_sorted snd True (calculate_frequency db lottery_type))"

definition get_least_frequent_numbers :: "draw_store \<Rightarrow> string \<Rightarrow> int \<Rightarrow> (int \<times> int) list" where
  "get_least_frequent_numbers db lottery_type cnt =
     py_take cnt (py_sorted snd False (calculate_frequency db lottery_type))"

definition get_number_ranges :: "string \<Rightarrow> int \<times> int" where
  "get_number_ranges lottery_type =
     (if lottery_type = ''lotto649'' then (1, 49)
      else if lottery_type = ''lottomax'' then (1, 50)
      else (1, 49))"

text \<open>The count of numbers per entry, \<^verbatim>\<open>6 if lottery_type == "lotto649" else 7\<close>.\<close>

definition numbers_needed :: "string \<Rightarrow> int" where
  "numbers_needed lottery_type = (if lottery_type = ''lotto649'' then 6 else 7)"

section \<open>The source of randomness\<close>

text \<open>
  The module \<^verbatim>\<open>random\<close> belongs to Python, not to this program. Its generator is an
  explicit state: an unbounded supply of natural numbers, of which every random decision
  consumes the first. \<^verbatim>\<open>random.choice(seq)\<close> reads \<^verbatim>\<open>seq[randbelow(len(seq))]\<close> and raises
  IndexError on an empty sequence. \<^verbatim>\<open>random.sample(population, k)\<close> raises ValueError
  unless \<^verbatim>\<open>0 <= k <= len(population)\<close> and otherwise selects \<open>k\<close> positions one after the
  other without replacement. A property proved for every supply holds for every outcome
  of the generator.
\<close>

datatype error = IndexError | ValueError

type_synonym rng = "nat \<Rightarrow> nat"

definition advance :: "rng \<Rightarrow> rng" where
  "advance g = (\<lambda>i. g (Suc i))"

definition randbelow :: "nat \<Rightarrow> rng \<Rightarrow> nat \<times> rng" where
  "randbelow n g = (g 0 mod n, advance g)"

definition random_choice :: "'a list \<Rightarrow> rng \<Rightarrow> error + ('a \<times> rng)" where
  "random_choice pool g =
     (if pool = [] then Inl IndexError
      else (case randbelow (length pool) g of (j, g') \<Rightarrow> Inr (pool ! j, g')))"

fun sample_loop :: "'a list \<Rightarrow> nat \<Rightarrow> rng \<Rightarrow> 'a list \<times> rng" where
  "sample_loop pool 0 g = ([], g)"
| "sample_loop pool (Suc k) g =
     (case randbelow (length pool) g of (j, g') \<Rightarrow>
        (case sample_loop (take j pool @ drop (Suc j) pool) k g' of
           (xs, g'') \<Rightarrow> (pool ! j # xs, g'')))"

definition random_sample :: "'a list \<Rightarrow> int \<Rightarrow> rng \<Rightarrow> error + ('a list \<times> rng)" where
  "random_sample population k g =
     (if k < 0 \<or> int (length population) < k then Inl ValueError
      else Inr (sample_loop population (nat k) g))"

section \<open>Entry generation\<close>

text \<open>The pool \<^verbatim>\<open>[n for n in range(min_num, max_num + 1) if n not in selected]\<close>.\<close>

definition remaining_pool :: "int \<Rightarrow> int \<Rightarrow> int list \<Rightarrow> int list" where
  "remaining_pool min_num max_num selected =
     filter (\<lambda>n. n \<notin> set selected) [min_num..max_num]"

text \<open>The loop \<^verbatim>\<open>while len(selected) < numbers_needed\<close> of the balanced strategy.\<close>

function fill_remaining ::
  "int \<Rightarrow> int \<Rightarrow> int \<Rightarrow> int list \<Rightarrow> rng \<Rightarrow> error + (int list \<times> rng)" where
  "fill_remaining min_num max_num needed selected g =
     (if int (length selected) < needed then
        (case random_choice (remaining_pool min_num max_num selected) g of
           Inl e \<Rightarrow> Inl e
         | Inr (x, g') \<Rightarrow> fill_remaining min_num max_num needed (selected @ [x]) g')
      else Inr (selected, g))"
  by pat_completeness auto
termination
  by (relation "measure (\<lambda>(min_num, max_num, needed, selected, g). nat (needed - int (length selected)))")
     auto

text \<open>
  \<^verbatim>\<open>generate_frequency_based_entry\<close>. The result is the sorted entry together with the
  state of the generator after the call, or the exception raised. An unknown strategy
  calls the function again with \<^verbatim>\<open>"balanced"\<close>.
\<close>

function generate_frequency_based_entry ::
  "draw_store \<Rightarrow> string \<Rightarrow> string \<Rightarrow> rng \<Rightarrow> error + (int list \<times> rng)" where
  "generate_frequency_based_entry db lottery_type strategy g =
     (case get_number_ranges lottery_type of (min_num, max_num) \<Rightarrow>
      let needed = numbers_needed lottery_type;
          frequency = calculate_frequency db lottery_type
      in
        if frequency = [] then
          (case random_sample [min_num..max_num] needed g of
             Inl e \<Rightarrow> Inl e
           | Inr (selected, g') \<Rightarrow> Inr (sort selected, g'))
        else if strategy = ''hot'' then
          (let most_frequent = get_most_frequent_numbers db lottery_type (needed * 2);
               candidates = map fst most_frequent;
               selected = py_take (needed - 1) candidates
           in case random_choice (remaining_pool min_num max_num selected) g of
                Inl e \<Rightarrow> Inl e
              | Inr (x, g') \<Rightarrow> Inr (sort (selected @ [x]), g'))
        else if strategy = ''cold'' then
          (let least_frequent = get_least_frequent_numbers db lottery_type (needed * 2);
               candidates = map fst least_frequent;
               selected = py_take needed candidates
           in Inr (sort selected, g))
        else if strategy = ''balanced'' then
          (let hot_numbers = get_most_frequent_numbers db lottery_type needed;
               cold_numbers = get_least_frequent_numbers db lottery_type needed;
               hot_picks = map fst (py_take (needed div 2) hot_numbers);
               cold_picks = map fst (py_take (needed div 2) cold_numbers)
           in case fill_remaining min_num max_num needed (hot_picks @ cold_picks) g of
                Inl e \<Rightarrow> Inl e
              | Inr (selected, g') \<Rightarrow> Inr (sort selected, g'))
        else if strategy = ''random'' then
          (case random_sample [min_num..max_num] needed g of
             Inl e \<Rightarrow> Inl e
           | Inr (selected, g') \<Rightarrow> Inr (sort selected, g'))
        else generate_frequency_based_entry db lottery_type ''balanced'' g)"
  by pat_completeness auto
termination
  by (relation "measure (\<lambda>(db, lottery_type, strategy, g). if strategy = ''balanced'' then 0 else 1)")
     auto

text \<open>\<^verbatim>\<open>generate_optimal_entries\<close>: one dictionary per value of the loop counter.\<close>

record entry =
  entry_number :: int
  strategy :: string
  numbers :: "int list"




section \<open>Properties of the frequency table\<close>


lemma keys_counter_add: "fst ` set (counter_add fr x) = insert x (fst ` set fr)"
  by (induction fr x rule: counter_add.induct) auto

lemma distinct_counter_add:
  "distinct (map fst fr) \<Longrightarrow> distinct (map fst (counter_add fr x))"
  by (induction fr x rule: counter_add.induct) (auto simp: keys_counter_add)

lemma sum_counter_add: "sum_list (map snd (counter_add fr x)) = sum_list (map snd fr) + 1"
  by (induction fr x rule: counter_add.induct) auto

lemma map_of_counter_add:
  "map_of (counter_add fr x) =
     (map_of fr)(x \<mapsto> (case map_of fr x of None \<Rightarrow> 1 | Some c \<Rightarrow> c + 1))"
  by (induction fr x rule: counter_add.induct) (auto simp: fun_eq_iff)


lemma keys_counter_update: "fst ` set (counter_update fr d) = fst ` set fr \<union> set d"
  unfolding counter_update_def
  by (induction d arbitrary: fr) (auto simp: keys_counter_add)

lemma distinct_counter_update:
  "distinct (map fst fr) \<Longrightarrow> distinct (map fst (counter_update fr d))"
  unfolding counter_update_def
  by (induction d arbitrary: fr) (auto simp: distinct_counter_add)

lemma sum_counter_update:
  "sum_list (map snd (counter_update fr d)) = sum_list (map snd fr) + int (length d)"
  unfolding counter_update_def
  by (induction d arbitrary: fr) (auto simp: sum_counter_add)



lemma count_of_counter_add:
  "count_of (counter_add fr x) k = count_of fr k + (if k = x then 1 else 0)"
  by (simp add: count_of_def map_of_counter_add split: option.splits)

lemma count_of_counter_update:
  "count_of (counter_update fr d) k = count_of fr k + int (count_list d k)"
  unfolding counter_update_def
  by (induction d arbitrary: fr) (auto simp: count_of_counter_add)

lemma foldl_counter_update_keys:
  "fst ` set (foldl counter_update fr ds) = fst ` set fr \<union> set (concat ds)"
  by (induction ds arbitrary: fr) (auto simp: keys_counter_update)

lemma foldl_counter_update_distinct:
  "distinct (map fst fr) \<Longrightarrow> distinct (map fst (foldl counter_update fr ds))"
  by (induction ds arbitrary: fr) (auto simp: distinct_counter_update)

lemma foldl_counter_update_sum:
  "sum_list (map snd (foldl counter_update fr ds)) = sum_list (map snd fr) + int (length (concat ds))"
  by (induction ds arbitrary: fr) (auto simp: sum_counter_update)

lemma foldl_counter_update_count_of:
  "count_of (foldl counter_update fr ds) k = count_of fr k + int (count_list (concat ds) k)"
  by (induction ds arbitrary: fr) (auto simp: count_of_counter_update)


lemma keys_count_draws: "fst ` set (count_draws ds) = set (concat ds)"
  by (simp add: count_draws_def foldl_counter_update_keys)

lemma distinct_count_draws: "distinct (map fst (count_draws ds))"
  by (simp add: count_draws_def foldl_counter_update_distinct)

lemma sum_count_draws: "sum_list (map snd (count_draws ds)) = int (length (concat ds))"
  by (simp add: count_draws_def foldl_counter_update_sum)

lemma count_of_Nil: "count_of [] k = 0"
  by (simp add: count_of_def)

lemma count_of_count_draws: "count_of (count_draws ds) k = int (count_list (concat ds) k)"
  by (simp add: count_draws_def foldl_counter_update_count_of count_of_Nil)


lemma map_of_count_draws:
  "map_of (count_draws ds) k =
     (if k \<in> set (concat ds) then Some (int (count_list (concat ds) k)) else None)"
proof (cases "k \<in> set (concat ds)")
  case True
  then have "k \<in> fst ` set (count_draws ds)" by (simp add: keys_count_draws)
  then obtain c where c: "map_of (count_draws ds) k = Some c"
    by (metis domD dom_map_of_conv_image_fst)
  then have "count_of (count_draws ds) k = c" by (simp add: count_of_def)
  then show ?thesis using True c by (simp add: count_of_count_draws)
next
  case False
  then have "k \<notin> fst ` set (count_draws ds)" by (simp add: keys_count_draws)
  then have "map_of (count_draws ds) k = None"
    by (simp add: map_of_eq_None_iff)
  then show ?thesis using False by simp
qed

subsection \<open>Parsing yields non-negative numbers\<close>







lemma keys_calculate_frequency:
  "fst ` set (calculate_frequency db lt) = set (concat (get_all_drawn_numbers db lt))"
  by (simp add: calculate_frequency_def keys_count_draws)

lemma eval_single_row_99:
  "calculate_frequency (single_table ''lotto649'' [Some ''99'']) ''lotto649'' = [(99, 1)]"
  by code_simp

lemma eval_single_draw:
  "calculate_frequency (single_table ''lotto649'' [Some ''1,2,3,4,5,6'']) ''lotto649'' =
     [(1, 1), (2, 1), (3, 1), (4, 1), (5, 1), (6, 1)]"
  by code_simp

lemma eval_draws_single:
  "get_all_drawn_numbers (single_table ''lotto649'' [Some ''1,2,3,4,5,6'']) ''lotto649'' = [[1, 2, 3, 4, 5, 6]]"
  by code_simp

text \<open>
  Claim C3, as the code has it. The keys of the frequency table are exactly the numbers that
  occur in the parsed draws. Nothing validates a draw, so the keys lie within a range
  \<open>[mn, mx]\<close> exactly when every parsed number of every draw does.
\<close>

theorem frequency_keys_are_drawn_numbers:
  "fst ` set (calculate_frequency db lt) = \<Union> (set ` set (get_all_drawn_numbers db lt))
   \<and> (fst ` set (calculate_frequency db lt) \<subseteq> {mn..mx} \<longleftrightarrow>
        (\<forall>d \<in> set (get_all_drawn_numbers db lt). \<forall>x \<in> set d. mn \<le> x \<and> x \<le> mx))"
  by (auto simp: keys_calculate_frequency)

text \<open>
  Claim C3, an instance: one well-formed draw of lotto649, whose keys lie within 1..49.
\<close>

theorem frequency_keys_are_drawn_numbers_witness:
  "get_all_drawn_numbers (single_table ''lotto649'' [Some ''1,2,3,4,5,6'']) ''lotto649'' = [[1, 2, 3, 4, 5, 6]]
   \<and> fst ` set (calculate_frequency (single_table ''lotto649'' [Some ''1,2,3,4,5,6'']) ''lotto649'') \<subseteq> {1..49}"
  using frequency_keys_are_drawn_numbers
          [of "single_table ''lotto649'' [Some ''1,2,3,4,5,6'']" "''lotto649''" 1 49]
  by (simp add: eval_draws_single)

text \<open>
  Claim C3 as stated fails: a stored draw \<^verbatim>\<open>"99"\<close> of lotto649 gives the key 99, outside 1..49.
\<close>

theorem frequency_keys_out_of_range:
  "\<not> fst ` set (calculate_frequency (single_table ''lotto649'' [Some ''99'']) ''lotto649'')
       \<subseteq> {fst (get_number_ranges ''lotto649'') .. snd (get_number_ranges ''lotto649'')}"
  by (simp add: eval_single_row_99 get_number_ranges_def)

text \<open>
  Claim C7. The counts of the table add up to the number of parsed numbers of all draws,
  repeats included; the count of a key is the number of its occurrences over all draws; one
  draw adds to a key the number of its occurrences in that draw, so a number drawn twice in
  one draw adds 2; and the table is a function of the draw history alone, so that the same
  history always gives the same table.
\<close>

theorem frequency_sum_and_counts:
  "sum_list (map snd (calculate_frequency db lt)) =
     int (length (concat (get_all_drawn_numbers db lt)))
   \<and> count_of (calculate_frequency db lt) k =
       int (count_list (concat (get_all_drawn_numbers db lt)) k)
   \<and> count_of (counter_update fr d) k = count_of fr k + int (count_list d k)
   \<and> count_of (counter_update fr [k, k]) k = count_of fr k + 2
   \<and> calculate_frequency db lt = count_draws (get_all_drawn_numbers db lt)"
  by (simp add: calculate_frequency_def sum_count_draws count_of_count_draws
        count_of_counter_update)





section \<open>Properties of the rankings\<close>

lemma py_sorted_mset: "mset (py_sorted key r xs) = mset xs"
  by (simp add: py_sorted_def)

lemma py_sorted_length: "length (py_sorted key r xs) = length xs"
  by (simp add: py_sorted_def)





lemma py_take_nonneg: "0 \<le> k \<Longrightarrow> py_take k xs = take (nat k) xs"
  by (simp add: py_take_def)





lemma eval_ranking_table:
  "calculate_frequency (single_table ''lotto649'' [Some ''5,7,5,9'']) ''lotto649'' =
     [(5, 2), (7, 1), (9, 1)]"
  by code_simp






section \<open>Properties of the generator\<close>

declare fill_remaining.simps [simp del]
declare generate_frequency_based_entry.simps [simp del]

subsection \<open>The source of randomness\<close>

lemma set_remove_nth:
  "j < length pool \<Longrightarrow> distinct pool \<Longrightarrow>
     set (take j pool @ drop (Suc j) pool) = set pool - {pool ! j}"
proof (induction pool arbitrary: j)
  case Nil
  then show ?case by simp
next
  case (Cons a pool)
  show ?case
  proof (cases j)
    case 0
    then show ?thesis using Cons.prems by auto
  next
    case (Suc i)
    have i: "i < length pool" using Cons.prems(1) Suc by simp
    have d: "distinct pool" and a: "a \<notin> set pool" using Cons.prems(2) by auto
    have "set (take i pool @ drop (Suc i) pool) = set pool - {pool ! i}"
      using i d by (rule Cons.IH)
    moreover have "a \<noteq> pool ! i" using a i by auto
    ultimately show ?thesis using Suc by auto
  qed
qed

lemma distinct_remove_nth:
  "distinct pool \<Longrightarrow> distinct (take j pool @ drop (Suc j) pool)"
proof (induction pool arbitrary: j)
  case Nil
  then show ?case by simp
next
  case (Cons a pool)
  show ?case
  proof (cases j)
    case 0
    then show ?thesis using Cons.prems by simp
  next
    case (Suc i)
    have d: "distinct pool" using Cons.prems by simp
    have "distinct (take i pool @ drop (Suc i) pool)" using d by (rule Cons.IH)
    moreover have "a \<notin> set (take i pool)" "a \<notin> set (drop (Suc i) pool)"
      using Cons.prems by (auto dest: in_set_takeD in_set_dropD)
    ultimately show ?thesis using Suc by simp
  qed
qed

lemma length_remove_nth:
  "j < length pool \<Longrightarrow> length (take j pool @ drop (Suc j) pool) = length pool - 1"
  by auto

lemma sample_loop_props:
  "k \<le> length pool \<Longrightarrow> distinct pool \<Longrightarrow>
     length (fst (sample_loop pool k g)) = k
     \<and> distinct (fst (sample_loop pool k g))
     \<and> set (fst (sample_loop pool k g)) \<subseteq> set pool"
proof (induction k arbitrary: pool g)
  case 0
  then show ?case by simp
next
  case (Suc k)
  let ?j = "g 0 mod length pool"
  let ?rest = "take ?j pool @ drop (Suc ?j) pool"
  have ne: "0 < length pool" using Suc.prems(1) by (cases pool) auto
  then have j: "?j < length pool" by simp
  have len: "k \<le> length ?rest" using Suc.prems(1) j by (simp only: length_remove_nth)
  have dist: "distinct ?rest" using Suc.prems(2) by (rule distinct_remove_nth)
  have sub: "set ?rest = set pool - {pool ! ?j}" using j Suc.prems(2) by (rule set_remove_nth)
  note IH = Suc.IH[OF len dist, of "advance g"]
  have unfold: "fst (sample_loop pool (Suc k) g) = pool ! ?j # fst (sample_loop ?rest k (advance g))"
    by (simp add: randbelow_def split: prod.splits)
  have "pool ! ?j \<in> set pool" using j by simp
  moreover have "pool ! ?j \<notin> set (fst (sample_loop ?rest k (advance g)))"
    using IH sub by blast
  moreover have "set (fst (sample_loop ?rest k (advance g))) \<subseteq> set pool"
    using IH sub by blast
  ultimately show ?case unfolding unfold using IH by simp
qed

lemma random_choice_nonempty:
  "pool \<noteq> [] \<Longrightarrow> random_choice pool g = Inr (pool ! (g 0 mod length pool), advance g)"
  by (simp add: random_choice_def randbelow_def)

lemma random_choice_in_pool:
  "pool \<noteq> [] \<Longrightarrow> pool ! (g 0 mod length pool) \<in> set pool"
  by simp

subsection \<open>The remaining pool\<close>

lemma set_remaining_pool:
  "set (remaining_pool mn mx selected) = {mn..mx} - set selected"
  by (auto simp: remaining_pool_def)

lemma distinct_remaining_pool: "distinct (remaining_pool mn mx selected)"
  by (simp add: remaining_pool_def)

lemma length_remaining_pool:
  "length [mn..mx] - length selected \<le> length (remaining_pool mn mx selected)"
proof -
  have "length (remaining_pool mn mx selected) = card ({mn..mx} - set selected)"
    using distinct_card[OF distinct_remaining_pool, of mn mx selected]
    by (simp add: set_remaining_pool)
  moreover have "card {mn..mx} - card (set selected) \<le> card ({mn..mx} - set selected)"
    by (rule diff_card_le_card_Diff) simp
  moreover have "card (set selected) \<le> length selected" by (rule card_length)
  moreover have "length [mn..mx] = card {mn..mx}"
    using distinct_card[of "[mn..mx]"] by simp
  ultimately show ?thesis by linarith
qed

lemma remaining_pool_nonempty:
  "length selected < length [mn..mx] \<Longrightarrow> remaining_pool mn mx selected \<noteq> []"
  using length_remaining_pool[of mn mx selected] by auto


subsection \<open>The fill loop of the balanced strategy\<close>

lemma fill_remaining_total:
  "needed \<le> int (length [mn..mx]) \<Longrightarrow>
     \<exists>rest g'. fill_remaining mn mx needed selected g = Inr (selected @ rest, g')
       \<and> int (length (selected @ rest)) = max (int (length selected)) needed
       \<and> distinct rest
       \<and> set rest \<subseteq> {mn..mx} - set selected"
proof (induction mn mx needed selected g rule: fill_remaining.induct)
  case (1 mn mx needed selected g)
  show ?case
  proof (cases "int (length selected) < needed")
    case False
    then have "fill_remaining mn mx needed selected g = Inr (selected @ [], g)"
      by (subst fill_remaining.simps) simp
    moreover have "int (length (selected @ [])) = max (int (length selected)) needed"
      using False by simp
    ultimately show ?thesis by (intro exI[of _ "[]"] exI[of _ g]) simp
  next
    case True
    let ?pool = "remaining_pool mn mx selected"
    let ?x = "?pool ! (g 0 mod length ?pool)"
    have "length selected < length [mn..mx]" using True "1.prems" by linarith
    then have ne: "?pool \<noteq> []" by (rule remaining_pool_nonempty)
    have rc: "random_choice ?pool g = Inr (?x, advance g)"
      using ne by (rule random_choice_nonempty)
    have "?x \<in> set ?pool" using ne by (rule random_choice_in_pool)
    then have xin: "?x \<in> {mn..mx} - set selected" by (simp only: set_remaining_pool)
    obtain rest g' where
      r: "fill_remaining mn mx needed (selected @ [?x]) (advance g) =
            Inr ((selected @ [?x]) @ rest, g')"
      and l: "int (length ((selected @ [?x]) @ rest)) =
            max (int (length (selected @ [?x]))) needed"
      and d: "distinct rest"
      and sub: "set rest \<subseteq> {mn..mx} - set (selected @ [?x])"
      using "1.IH"[OF True rc refl "1.prems"] by blast
    have unfold: "fill_remaining mn mx needed selected g =
          fill_remaining mn mx needed (selected @ [?x]) (advance g)"
      by (subst fill_remaining.simps) (simp add: True rc)
    have "fill_remaining mn mx needed selected g = Inr (selected @ (?x # rest), g')"
      using unfold r by simp
    moreover have "int (length (selected @ (?x # rest))) = max (int (length selected)) needed"
      using l True by simp
    moreover have "distinct (?x # rest)" using d sub by auto
    moreover have "set (?x # rest) \<subseteq> {mn..mx} - set selected" using xin sub by auto
    ultimately show ?thesis by blast
  qed
qed

subsection \<open>The profiles and the branches of the generator\<close>

lemma profile_cases:
  "(get_number_ranges lt = (1, 49) \<or> get_number_ranges lt = (1, 50))
   \<and> (numbers_needed lt = 6 \<or> numbers_needed lt = 7)"
  by (simp add: get_number_ranges_def numbers_needed_def)

lemma profile_fits:
  assumes "get_number_ranges lt = (mn, mx)"
  shows "0 \<le> numbers_needed lt" and "numbers_needed lt \<le> 7"
    and "49 \<le> length [mn..mx]" and "distinct [mn..mx]"
  using assms profile_cases[of lt] by auto

lemma length_py_take: "0 \<le> k \<Longrightarrow> length (py_take k xs) \<le> nat k"
  by (simp add: py_take_def)

lemma generate_empty:
  assumes "calculate_frequency db lt = []" "get_number_ranges lt = (mn, mx)"
  shows "generate_frequency_based_entry db lt s g =
           Inr (sort (fst (sample_loop [mn..mx] (nat (numbers_needed lt)) g)),
                snd (sample_loop [mn..mx] (nat (numbers_needed lt)) g))"
proof -
  have "\<not> (numbers_needed lt < 0 \<or> int (length [mn..mx]) < numbers_needed lt)"
    using profile_fits[OF assms(2)] by linarith
  then have "random_sample [mn..mx] (numbers_needed lt) g =
      Inr (sample_loop [mn..mx] (nat (numbers_needed lt)) g)"
    by (simp only: random_sample_def if_False)
  then show ?thesis
    by (subst generate_frequency_based_entry.simps)
       (simp add: assms Let_def split: prod.splits)
qed

lemma generate_random:
  assumes "get_number_ranges lt = (mn, mx)"
  shows "generate_frequency_based_entry db lt ''random'' g =
           Inr (sort (fst (sample_loop [mn..mx] (nat (numbers_needed lt)) g)),
                snd (sample_loop [mn..mx] (nat (numbers_needed lt)) g))"
proof (cases "calculate_frequency db lt = []")
  case True
  then show ?thesis using assms by (rule generate_empty)
next
  case False
  have "\<not> (numbers_needed lt < 0 \<or> int (length [mn..mx]) < numbers_needed lt)"
    using profile_fits[OF assms] by linarith
  then have "random_sample [mn..mx] (numbers_needed lt) g =
      Inr (sample_loop [mn..mx] (nat (numbers_needed lt)) g)"
    by (simp only: random_sample_def if_False)
  then show ?thesis
    by (subst generate_frequency_based_entry.simps)
       (simp add: assms False Let_def split: prod.splits)
qed

lemma generate_hot:
  assumes "calculate_frequency db lt \<noteq> []" "get_number_ranges lt = (mn, mx)"
    and "selected = py_take (numbers_needed lt - 1)
           (map fst (get_most_frequent_numbers db lt (numbers_needed lt * 2)))"
    and "pool = remaining_pool mn mx selected"
  shows "pool \<noteq> []"
    and "generate_frequency_based_entry db lt ''hot'' g =
           Inr (sort (selected @ [pool ! (g 0 mod length pool)]), advance g)"
proof -
  have "length selected \<le> nat (numbers_needed lt - 1)"
    unfolding assms(3) using profile_cases[of lt] by (intro length_py_take) auto
  then have "length selected < length [mn..mx]"
    using profile_fits[OF assms(2)] by linarith
  then show ne: "pool \<noteq> []" unfolding assms(4) by (rule remaining_pool_nonempty)
  have rc: "random_choice pool g = Inr (pool ! (g 0 mod length pool), advance g)"
    using ne by (rule random_choice_nonempty)
  show "generate_frequency_based_entry db lt ''hot'' g =
           Inr (sort (selected @ [pool ! (g 0 mod length pool)]), advance g)"
    using rc unfolding assms(3,4)
    by (subst generate_frequency_based_entry.simps) (simp add: assms(1,2) Let_def)
qed

lemma generate_cold:
  assumes "calculate_frequency db lt \<noteq> []"
  shows "generate_frequency_based_entry db lt ''cold'' g =
           Inr (sort (py_take (numbers_needed lt)
                  (map fst (get_least_frequent_numbers db lt (numbers_needed lt * 2)))), g)"
  by (subst generate_frequency_based_entry.simps)
     (simp add: assms Let_def split: prod.splits)

lemma generate_balanced:
  assumes "calculate_frequency db lt \<noteq> []" "get_number_ranges lt = (mn, mx)"
  shows "generate_frequency_based_entry db lt ''balanced'' g =
           (case fill_remaining mn mx (numbers_needed lt)
                   (map fst (py_take (numbers_needed lt div 2)
                      (get_most_frequent_numbers db lt (numbers_needed lt)))
                    @ map fst (py_take (numbers_needed lt div 2)
                      (get_least_frequent_numbers db lt (numbers_needed lt)))) g of
              Inl e \<Rightarrow> Inl e
            | Inr (selected, g') \<Rightarrow> Inr (sort selected, g'))"
  by (subst generate_frequency_based_entry.simps) (simp add: assms Let_def)

lemma generate_unknown:
  assumes "s \<noteq> ''hot''" "s \<noteq> ''cold''" "s \<noteq> ''balanced''" "s \<noteq> ''random''"
  shows "generate_frequency_based_entry db lt s g =
           generate_frequency_based_entry db lt ''balanced'' g"
proof (cases "calculate_frequency db lt = []")
  case True
  obtain mn mx where r: "get_number_ranges lt = (mn, mx)" by (cases "get_number_ranges lt")
  show ?thesis by (simp only: generate_empty[OF True r])
next
  case False
  show ?thesis
    by (subst generate_frequency_based_entry.simps)
       (simp add: assms False Let_def split: prod.splits)
qed


section \<open>Results of entry generation\<close>

lemma sample_loop_Suc:
  "fst (sample_loop pool (Suc k) g) =
     pool ! (g 0 mod length pool)
       # fst (sample_loop (take (g 0 mod length pool) pool @ drop (Suc (g 0 mod length pool)) pool)
               k (advance g))"
  by (simp add: randbelow_def split: prod.splits)

lemma sample_loop_attains:
  "distinct ys \<Longrightarrow> set ys \<subseteq> set pool \<Longrightarrow> distinct pool \<Longrightarrow>
     \<exists>g. fst (sample_loop pool (length ys) g) = ys"
proof (induction ys arbitrary: pool)
  case Nil
  then show ?case by simp
next
  case (Cons y ys)
  have "y \<in> set pool" using Cons.prems(2) by simp
  then obtain j where j: "j < length pool" and y: "pool ! j = y"
    by (auto simp: in_set_conv_nth)
  let ?rest = "take j pool @ drop (Suc j) pool"
  have rest: "set ?rest = set pool - {y}"
    using set_remove_nth[OF j Cons.prems(3)] y by simp
  have "set ys \<subseteq> set ?rest" using Cons.prems(1,2) rest by auto
  moreover have "distinct ys" using Cons.prems(1) by simp
  moreover have "distinct ?rest" using Cons.prems(3) by (rule distinct_remove_nth)
  ultimately obtain g' where g': "fst (sample_loop ?rest (length ys) g') = ys"
    using Cons.IH by blast
  let ?g = "\<lambda>i. case i of 0 \<Rightarrow> j | Suc i' \<Rightarrow> g' i'"
  have "advance ?g = g'" by (simp add: advance_def)
  moreover have "?g 0 mod length pool = j" using j by simp
  ultimately have "fst (sample_loop pool (Suc (length ys)) ?g) = y # ys"
    using g' y by (simp only: sample_loop_Suc)
  then show ?case by (intro exI[of _ ?g]) simp
qed

lemma generate_sorted:
  assumes "generate_frequency_based_entry db lt s g = Inr (xs, g')"
  shows "sorted xs"
proof -
  obtain mn mx where r: "get_number_ranges lt = (mn, mx)" by (cases "get_number_ranges lt")
  have bal: "sorted xs"
    if "generate_frequency_based_entry db lt ''balanced'' g = Inr (xs, g')"
  proof (cases "calculate_frequency db lt = []")
    case True
    show ?thesis using that unfolding generate_empty[OF True r] by auto
  next
    case False
    show ?thesis using that unfolding generate_balanced[OF False r]
      by (auto split: sum.splits)
  qed
  consider "s = ''hot''" | "s = ''cold''" | "s = ''balanced''" | "s = ''random''"
    | "s \<noteq> ''hot''" "s \<noteq> ''cold''" "s \<noteq> ''balanced''" "s \<noteq> ''random''"
    by blast
  then show ?thesis
  proof cases
    case 1
    show ?thesis
    proof (cases "calculate_frequency db lt = []")
      case True
      show ?thesis using assms unfolding generate_empty[OF True r] by auto
    next
      case False
      show ?thesis using assms unfolding 1 generate_hot(2)[OF False r refl refl] by auto
    qed
  next
    case 2
    show ?thesis
    proof (cases "calculate_frequency db lt = []")
      case True
      show ?thesis using assms unfolding generate_empty[OF True r] by auto
    next
      case False
      show ?thesis using assms unfolding 2 generate_cold[OF False] by auto
    qed
  next
    case 3
    then show ?thesis using bal assms by simp
  next
    case 4
    show ?thesis using assms unfolding 4 generate_random[OF r] by auto
  next
    case 5
    show ?thesis using bal assms unfolding generate_unknown[OF 5] by simp
  qed
qed


lemma sort_one_draw_picks: "sort [1, 2, 3, 1, 2, 3 :: int] = [1, 1, 2, 2, 3, 3]"
  by code_simp

lemma picks_one_draw:
  "map fst (py_take (numbers_needed ''lotto649'' div 2)
       (get_most_frequent_numbers (single_table ''lotto649'' [Some ''1,2,3,4,5,6''])
          ''lotto649'' (numbers_needed ''lotto649'')))
   @ map fst (py_take (numbers_needed ''lotto649'' div 2)
       (get_least_frequent_numbers (single_table ''lotto649'' [Some ''1,2,3,4,5,6''])
          ''lotto649'' (numbers_needed ''lotto649''))) = [1, 2, 3, 1, 2, 3]"
  by code_simp

lemma one_draw_balanced:
  "generate_frequency_based_entry
     (single_table ''lotto649'' [Some ''1,2,3,4,5,6'']) ''lotto649'' ''balanced'' g =
   Inr ([1, 1, 2, 2, 3, 3], g)"
proof -
  let ?db = "single_table ''lotto649'' [Some ''1,2,3,4,5,6'']"
  have ne: "calculate_frequency ?db ''lotto649'' \<noteq> []" by (simp add: eval_single_draw)
  have r: "get_number_ranges ''lotto649'' = (1, 49)" by (simp add: get_number_ranges_def)
  have n: "numbers_needed ''lotto649'' = 6" by (simp add: numbers_needed_def)
  have fill: "fill_remaining 1 49 6 [1, 2, 3, 1, 2, 3] g = Inr ([1, 2, 3, 1, 2, 3], g)"
    by (subst fill_remaining.simps) simp
  show ?thesis
    unfolding generate_balanced[OF ne r] picks_one_draw
    by (simp add: n fill sort_one_draw_picks)
qed


section \<open>The empty frequency table\<close>

lemma sample_entry_valid:
  assumes "get_number_ranges lt = (mn, mx)"
  shows "int (length (sort (fst (sample_loop [mn..mx] (nat (numbers_needed lt)) g)))) =
           numbers_needed lt"
    and "distinct (sort (fst (sample_loop [mn..mx] (nat (numbers_needed lt)) g)))"
    and "sorted (sort (fst (sample_loop [mn..mx] (nat (numbers_needed lt)) g)))"
    and "set (sort (fst (sample_loop [mn..mx] (nat (numbers_needed lt)) g))) \<subseteq> {mn..mx}"
proof -
  have k: "nat (numbers_needed lt) \<le> length [mn..mx]"
    using profile_fits[OF assms] by linarith
  have d: "distinct [mn..mx]" by simp
  note p = sample_loop_props[OF k d, of g]
  show "int (length (sort (fst (sample_loop [mn..mx] (nat (numbers_needed lt)) g)))) =
           numbers_needed lt"
    using p profile_fits(1)[OF assms] by simp
  show "distinct (sort (fst (sample_loop [mn..mx] (nat (numbers_needed lt)) g)))"
    using p by simp
  show "sorted (sort (fst (sample_loop [mn..mx] (nat (numbers_needed lt)) g)))"
    by simp
  show "set (sort (fst (sample_loop [mn..mx] (nat (numbers_needed lt)) g))) \<subseteq> {mn..mx}"
    using p by simp
qed

text \<open>
  Claim C5. When the frequency table is empty, every strategy string, known or not, gives
  the result of the random strategy: the sorted outcome of
  \<^verbatim>\<open>random.sample(range(min_num, max_num + 1), numbers_needed)\<close>. That outcome has
  \<open>numbers_needed\<close> distinct numbers within the range, and every sorted selection of that
  many distinct numbers of the range is the outcome for some run of the generator.
\<close>

theorem empty_table_falls_back_to_random:
  "calculate_frequency db lt = [] \<Longrightarrow> get_number_ranges lt = (mn, mx) \<Longrightarrow>
     generate_frequency_based_entry db lt s g =
       generate_frequency_based_entry db lt ''random'' g
   \<and> generate_frequency_based_entry db lt s g =
       Inr (sort (fst (sample_loop [mn..mx] (nat (numbers_needed lt)) g)),
            snd (sample_loop [mn..mx] (nat (numbers_needed lt)) g))
   \<and> (\<exists>xs g'. generate_frequency_based_entry db lt s g = Inr (xs, g')
         \<and> int (length xs) = numbers_needed lt \<and> distinct xs \<and> sorted xs
         \<and> set xs \<subseteq> {mn..mx})
   \<and> (distinct ys \<and> sorted ys \<and> int (length ys) = numbers_needed lt \<and> set ys \<subseteq> {mn..mx}
        \<longrightarrow> (\<exists>g0 g'. generate_frequency_based_entry db lt s g0 = Inr (ys, g')))"
proof -
  assume e: "calculate_frequency db lt = []" and r: "get_number_ranges lt = (mn, mx)"
  have same: "generate_frequency_based_entry db lt s g =
       generate_frequency_based_entry db lt ''random'' g"
    by (simp only: generate_empty[OF e r])
  have form: "generate_frequency_based_entry db lt s g =
       Inr (sort (fst (sample_loop [mn..mx] (nat (numbers_needed lt)) g)),
            snd (sample_loop [mn..mx] (nat (numbers_needed lt)) g))"
    by (rule generate_empty[OF e r])
  have valid: "\<exists>xs g'. generate_frequency_based_entry db lt s g = Inr (xs, g')
         \<and> int (length xs) = numbers_needed lt \<and> distinct xs \<and> sorted xs
         \<and> set xs \<subseteq> {mn..mx}"
    using form sample_entry_valid[OF r, of g] by blast
  have all: "\<exists>g0 g'. generate_frequency_based_entry db lt s g0 = Inr (ys, g')"
    if ys: "distinct ys" "sorted ys" "int (length ys) = numbers_needed lt" "set ys \<subseteq> {mn..mx}"
  proof -
    have "set ys \<subseteq> set [mn..mx]" using ys(4) by simp
    then obtain g0 where "fst (sample_loop [mn..mx] (length ys) g0) = ys"
      using sample_loop_attains[OF ys(1), of "[mn..mx]"] by auto
    moreover have "length ys = nat (numbers_needed lt)" using ys(3) by linarith
    moreover have "sort ys = ys" using ys(2) by (rule sort_key_id_if_sorted[of "\<lambda>x. x", simplified])
    ultimately show ?thesis using generate_empty[OF e r, of s g0] by auto
  qed
  show ?thesis using same form valid all by blast
qed

lemma eval_no_rows: "calculate_frequency (single_table ''lotto649'' []) ''lotto649'' = []"
  by code_simp

lemma eval_range_649: "get_number_ranges ''lotto649'' = (1, 49)"
  by (simp add: get_number_ranges_def)

lemma eval_sample_649:
  "sort (fst (sample_loop [1..49] (nat (numbers_needed ''lotto649'')) id)) =
     [1, 3, 5, 7, 9, 11]"
  by code_simp

text \<open>
  Claim C5, an instance: no stored draw of lotto649, the hot strategy, and the generator
  that answers 0, 1, 2, ...
\<close>

theorem empty_table_falls_back_to_random_witness:
  "calculate_frequency (single_table ''lotto649'' []) ''lotto649'' = []
   \<and> get_number_ranges ''lotto649'' = (1, 49)
   \<and> generate_frequency_based_entry (single_table ''lotto649'' []) ''lotto649'' ''hot'' id =
       generate_frequency_based_entry (single_table ''lotto649'' []) ''lotto649'' ''random'' id
   \<and> generate_frequency_based_entry (single_table ''lotto649'' []) ''lotto649'' ''hot'' id =
       Inr ([1, 3, 5, 7, 9, 11],
            snd (sample_loop [1..49] (nat (numbers_needed ''lotto649'')) id))"
proof -
  note t = empty_table_falls_back_to_random
             [OF eval_no_rows eval_range_649, of "''hot''" id "[]"]
  have same: "generate_frequency_based_entry (single_table ''lotto649'' []) ''lotto649'' ''hot'' id =
       generate_frequency_based_entry (single_table ''lotto649'' []) ''lotto649'' ''random'' id"
    using t by blast
  have form: "generate_frequency_based_entry (single_table ''lotto649'' []) ''lotto649'' ''hot'' id =
       Inr (sort (fst (sample_loop [1..49] (nat (numbers_needed ''lotto649'')) id)),
            snd (sample_loop [1..49] (nat (numbers_needed ''lotto649'')) id))"
    using t by blast
  show ?thesis
    using same form eval_no_rows eval_range_649
    unfolding eval_sample_649 by blast
qed

section \<open>The hot strategy and batches\<close>

text \<open>
  Claim C9. On a table that is not empty the hot strategy keeps the first
  \<open>numbers_needed - 1\<close> numbers of the ranking of the \<open>numbers_needed * 2\<close> most frequent
  numbers and adds one element of the pool, the numbers of the range that are not among
  the kept ones, whatever their counts. The pool is never empty and lists every such number
  once, so that the random position, uniform over the positions of the pool, selects
  uniformly among those numbers. The entry is the sorted list of the kept numbers and the
  added one.
\<close>

theorem hot_strategy_structure:
  "calculate_frequency db lt \<noteq> [] \<Longrightarrow> get_number_ranges lt = (mn, mx) \<Longrightarrow>
   selected = take (nat (numbers_needed lt - 1))
                (map fst (get_most_frequent_numbers db lt (numbers_needed lt * 2))) \<Longrightarrow>
   pool = remaining_pool mn mx selected \<Longrightarrow>
     generate_frequency_based_entry db lt ''hot'' g =
       Inr (sort (selected @ [pool ! (g 0 mod length pool)]), advance g)
   \<and> pool \<noteq> []
   \<and> set pool = {mn..mx} - set selected
   \<and> pool ! (g 0 mod length pool) \<in> {mn..mx} - set selected
   \<and> bij_betw (\<lambda>j. pool ! j) {..<length pool} ({mn..mx} - set selected)"
proof -
  assume ne: "calculate_frequency db lt \<noteq> []" and r: "get_number_ranges lt = (mn, mx)"
    and sel: "selected = take (nat (numbers_needed lt - 1))
                (map fst (get_most_frequent_numbers db lt (numbers_needed lt * 2)))"
    and pool: "pool = remaining_pool mn mx selected"
  have "0 \<le> numbers_needed lt - 1" using profile_cases[of lt] by auto
  then have sel': "selected = py_take (numbers_needed lt - 1)
                (map fst (get_most_frequent_numbers db lt (numbers_needed lt * 2)))"
    unfolding sel by (simp only: py_take_nonneg)
  note h = generate_hot[OF ne r sel' pool]
  have s: "set pool = {mn..mx} - set selected" unfolding pool by (rule set_remaining_pool)
  have d: "distinct pool" unfolding pool by (rule distinct_remaining_pool)
  have "pool ! (g 0 mod length pool) \<in> set pool" using h(1) by (rule random_choice_in_pool)
  then have x: "pool ! (g 0 mod length pool) \<in> {mn..mx} - set selected" by (simp only: s)
  have b: "bij_betw (\<lambda>j. pool ! j) {..<length pool} ({mn..mx} - set selected)"
    using d s by (intro bij_betw_nth) simp_all
  show ?thesis using h s x b by blast
qed

lemma eval_hot_selected:
  "take (nat (numbers_needed ''lotto649'' - 1))
     (map fst (get_most_frequent_numbers (single_table ''lotto649'' [Some ''1,2,3,4,5,6''])
        ''lotto649'' (numbers_needed ''lotto649'' * 2))) = [1, 2, 3, 4, 5]"
  by code_simp

lemma eval_hot_pick:
  "remaining_pool 1 49 [1, 2, 3, 4, 5] ! (id 0 mod length (remaining_pool 1 49 [1, 2, 3, 4, 5]))
     = 6"
  by code_simp

lemma sort_hot_entry: "sort [1, 2, 3, 4, 5, 6 :: int] = [1, 2, 3, 4, 5, 6]"
  by code_simp

lemma one_draw_nonempty:
  "calculate_frequency (single_table ''lotto649'' [Some ''1,2,3,4,5,6'']) ''lotto649'' \<noteq> []"
  by (simp add: eval_single_draw)

text \<open>
  Claim C9, an instance: one stored draw of lotto649 and the generator that answers
  0, 1, 2, ...; the numbers 1 to 5 are kept and 6, the first number of the pool, is added.
\<close>

theorem hot_strategy_structure_witness:
  "calculate_frequency (single_table ''lotto649'' [Some ''1,2,3,4,5,6'']) ''lotto649'' \<noteq> []
   \<and> get_number_ranges ''lotto649'' = (1, 49)
   \<and> generate_frequency_based_entry
        (single_table ''lotto649'' [Some ''1,2,3,4,5,6'']) ''lotto649'' ''hot'' id =
      Inr ([1, 2, 3, 4, 5, 6], advance id)"
proof -
  note t = hot_strategy_structure [OF one_draw_nonempty eval_range_649 refl refl, of id]
  have "generate_frequency_based_entry
        (single_table ''lotto649'' [Some ''1,2,3,4,5,6'']) ''lotto649'' ''hot'' id =
      Inr (sort ([1, 2, 3, 4, 5] @
             [remaining_pool 1 49 [1, 2, 3, 4, 5]
                ! (id 0 mod length (remaining_pool 1 49 [1, 2, 3, 4, 5]))]), advance id)"
    using t unfolding eval_hot_selected by blast
  then have "generate_frequency_based_entry
        (single_table ''lotto649'' [Some ''1,2,3,4,5,6'']) ''lotto649'' ''hot'' id =
      Inr ([1, 2, 3, 4, 5, 6], advance id)"
    unfolding eval_hot_pick by (simp add: sort_hot_entry)
  then show ?thesis using one_draw_nonempty eval_range_649 by blast
qed

subsection \<open>Batches\<close>






section \<open>Entries that are well formed\<close>

text \<open>
  Conditions under which the three strategies that read the table give an entry of
  \<open>numbers_needed\<close> distinct numbers of the range: the keys of the table lie within the
  range; the table has enough keys for the hot and the cold strategy, which never fill up;
  and the hot and the cold picks of the balanced strategy have no number in common.
\<close>

lemma distinct_keys_py_sorted:
  "distinct (map fst fr) \<Longrightarrow> distinct (map fst (py_sorted key r fr))"
proof -
  assume d: "distinct (map fst fr)"
  have "mset (map fst (py_sorted key r fr)) = mset (map fst fr)"
    by (simp only: mset_map py_sorted_mset)
  then have "distinct (map fst (py_sorted key r fr)) \<longleftrightarrow> distinct (map fst fr)"
    by (rule mset_eq_imp_distinct_iff)
  then show ?thesis using d by blast
qed

lemma set_py_sorted: "set (py_sorted key r fr) = set fr"
  by (simp add: py_sorted_def)

lemma ranking_keys:
  assumes "0 \<le> k"
  shows "distinct (map fst (get_most_frequent_numbers db lt k))"
    and "distinct (map fst (get_least_frequent_numbers db lt k))"
    and "set (map fst (get_most_frequent_numbers db lt k)) \<subseteq> fst ` set (calculate_frequency db lt)"
    and "set (map fst (get_least_frequent_numbers db lt k)) \<subseteq> fst ` set (calculate_frequency db lt)"
    and "length (get_most_frequent_numbers db lt k) = min (nat k) (length (calculate_frequency db lt))"
    and "length (get_least_frequent_numbers db lt k) = min (nat k) (length (calculate_frequency db lt))"
proof -
  let ?t = "calculate_frequency db lt"
  have d: "distinct (map fst ?t)"
    by (simp add: calculate_frequency_def distinct_count_draws)
  have m: "get_most_frequent_numbers db lt k = take (nat k) (py_sorted snd True ?t)"
    using assms by (simp add: get_most_frequent_numbers_def py_take_nonneg)
  have l: "get_least_frequent_numbers db lt k = take (nat k) (py_sorted snd False ?t)"
    using assms by (simp add: get_least_frequent_numbers_def py_take_nonneg)
  show "distinct (map fst (get_most_frequent_numbers db lt k))"
    unfolding m take_map[symmetric] by (rule distinct_take, rule distinct_keys_py_sorted, rule d)
  show "distinct (map fst (get_least_frequent_numbers db lt k))"
    unfolding l take_map[symmetric] by (rule distinct_take, rule distinct_keys_py_sorted, rule d)
  show "set (map fst (get_most_frequent_numbers db lt k)) \<subseteq> fst ` set ?t"
    unfolding m using set_take_subset[of "nat k" "py_sorted snd True ?t"]
    by (auto simp: set_py_sorted)
  show "set (map fst (get_least_frequent_numbers db lt k)) \<subseteq> fst ` set ?t"
    unfolding l using set_take_subset[of "nat k" "py_sorted snd False ?t"]
    by (auto simp: set_py_sorted)
  show "length (get_most_frequent_numbers db lt k) = min (nat k) (length ?t)"
    unfolding m by (simp add: py_sorted_length min.commute)
  show "length (get_least_frequent_numbers db lt k) = min (nat k) (length ?t)"
    unfolding l by (simp add: py_sorted_length min.commute)
qed

lemma hot_entry_well_formed:
  assumes ne: "calculate_frequency db lt \<noteq> []" and r: "get_number_ranges lt = (mn, mx)"
    and keys: "fst ` set (calculate_frequency db lt) \<subseteq> {mn..mx}"
    and enough: "numbers_needed lt - 1 \<le> int (length (calculate_frequency db lt))"
  shows "\<exists>xs g'. generate_frequency_based_entry db lt ''hot'' g = Inr (xs, g')
           \<and> int (length xs) = numbers_needed lt \<and> distinct xs \<and> sorted xs
           \<and> set xs \<subseteq> {mn..mx}"
proof -
  let ?n = "numbers_needed lt"
  let ?cand = "map fst (get_most_frequent_numbers db lt (?n * 2))"
  let ?sel = "py_take (?n - 1) ?cand"
  let ?pool = "remaining_pool mn mx ?sel"
  let ?x = "?pool ! (g 0 mod length ?pool)"
  have n: "?n = 6 \<or> ?n = 7" using profile_cases[of lt] by simp
  then have n2: "0 \<le> ?n * 2" and n1: "0 \<le> ?n - 1" by auto
  have sel: "?sel = take (nat (?n - 1)) ?cand" using n1 by (rule py_take_nonneg)
  have dc: "distinct ?cand" using n2 by (rule ranking_keys(1))
  have sc: "set ?cand \<subseteq> {mn..mx}" using ranking_keys(3)[OF n2, of db lt] keys by blast
  have lc: "length ?cand = min (nat (?n * 2)) (length (calculate_frequency db lt))"
    using ranking_keys(5)[OF n2, of db lt] by simp
  have ds: "distinct ?sel" unfolding sel using dc by (rule distinct_take)
  have ss: "set ?sel \<subseteq> {mn..mx}"
    unfolding sel using sc set_take_subset[of "nat (?n - 1)" ?cand] by blast
  have ls: "int (length ?sel) = ?n - 1" unfolding sel using lc enough n by auto
  note h = generate_hot[OF ne r refl refl]
  have "?x \<in> set ?pool" using h(1) by (rule random_choice_in_pool)
  then have x: "?x \<in> {mn..mx} - set ?sel" by (simp only: set_remaining_pool)
  have "int (length (sort (?sel @ [?x]))) = ?n" using ls by simp
  moreover have "distinct (sort (?sel @ [?x]))" using ds x by simp
  moreover have "sorted (sort (?sel @ [?x]))" by simp
  moreover have "set (sort (?sel @ [?x])) \<subseteq> {mn..mx}" using ss x by simp
  ultimately show ?thesis using h(2)[of g] by blast
qed

lemma cold_entry_well_formed:
  assumes ne: "calculate_frequency db lt \<noteq> []" and r: "get_number_ranges lt = (mn, mx)"
    and keys: "fst ` set (calculate_frequency db lt) \<subseteq> {mn..mx}"
    and enough: "numbers_needed lt \<le> int (length (calculate_frequency db lt))"
  shows "\<exists>xs g'. generate_frequency_based_entry db lt ''cold'' g = Inr (xs, g')
           \<and> int (length xs) = numbers_needed lt \<and> distinct xs \<and> sorted xs
           \<and> set xs \<subseteq> {mn..mx}"
proof -
  let ?n = "numbers_needed lt"
  let ?cand = "map fst (get_least_frequent_numbers db lt (?n * 2))"
  let ?sel = "py_take ?n ?cand"
  have n: "?n = 6 \<or> ?n = 7" using profile_cases[of lt] by simp
  then have n2: "0 \<le> ?n * 2" and n0: "0 \<le> ?n" by auto
  have sel: "?sel = take (nat ?n) ?cand" using n0 by (rule py_take_nonneg)
  have dc: "distinct ?cand" using n2 by (rule ranking_keys(2))
  have sc: "set ?cand \<subseteq> {mn..mx}" using ranking_keys(4)[OF n2, of db lt] keys by blast
  have lc: "length ?cand = min (nat (?n * 2)) (length (calculate_frequency db lt))"
    using ranking_keys(6)[OF n2, of db lt] by simp
  have ds: "distinct ?sel" unfolding sel using dc by (rule distinct_take)
  have ss: "set ?sel \<subseteq> {mn..mx}"
    unfolding sel using sc set_take_subset[of "nat ?n" ?cand] by blast
  have ls: "int (length ?sel) = ?n" unfolding sel using lc enough n by auto
  have "int (length (sort ?sel)) = ?n" using ls by simp
  moreover have "distinct (sort ?sel)" using ds by simp
  moreover have "sorted (sort ?sel)" by simp
  moreover have "set (sort ?sel) \<subseteq> {mn..mx}" using ss by simp
  ultimately show ?thesis using generate_cold[OF ne, of g] by blast
qed

lemma balanced_entry_well_formed:
  assumes ne: "calculate_frequency db lt \<noteq> []" and r: "get_number_ranges lt = (mn, mx)"
    and keys: "fst ` set (calculate_frequency db lt) \<subseteq> {mn..mx}"
    and hot: "hot_picks = map fst (py_take (numbers_needed lt div 2)
                 (get_most_frequent_numbers db lt (numbers_needed lt)))"
    and cold: "cold_picks = map fst (py_take (numbers_needed lt div 2)
                 (get_least_frequent_numbers db lt (numbers_needed lt)))"
    and disjoint: "set hot_picks \<inter> set cold_picks = {}"
  shows "\<exists>xs g'. generate_frequency_based_entry db lt ''balanced'' g = Inr (xs, g')
           \<and> int (length xs) = numbers_needed lt \<and> distinct xs \<and> sorted xs
           \<and> set xs \<subseteq> {mn..mx}"
proof -
  let ?n = "numbers_needed lt"
  have n: "?n = 6 \<or> ?n = 7" using profile_cases[of lt] by simp
  then have n0: "0 \<le> ?n" and nh: "0 \<le> ?n div 2" by auto
  have hp: "hot_picks = take (nat (?n div 2)) (map fst (get_most_frequent_numbers db lt ?n))"
    unfolding hot by (simp only: py_take_nonneg[OF nh] take_map)
  have cp: "cold_picks = take (nat (?n div 2)) (map fst (get_least_frequent_numbers db lt ?n))"
    unfolding cold by (simp only: py_take_nonneg[OF nh] take_map)
  have dh: "distinct hot_picks" unfolding hp
    by (rule distinct_take, rule ranking_keys(1), rule n0)
  have dc: "distinct cold_picks" unfolding cp
    by (rule distinct_take, rule ranking_keys(2), rule n0)
  have sh: "set hot_picks \<subseteq> {mn..mx}" unfolding hp
    using set_take_subset[of "nat (?n div 2)" "map fst (get_most_frequent_numbers db lt ?n)"]
      ranking_keys(3)[OF n0, of db lt] keys by blast
  have sc: "set cold_picks \<subseteq> {mn..mx}" unfolding cp
    using set_take_subset[of "nat (?n div 2)" "map fst (get_least_frequent_numbers db lt ?n)"]
      ranking_keys(4)[OF n0, of db lt] keys by blast
  have lh: "length hot_picks \<le> nat (?n div 2)" unfolding hp by simp
  have lc: "length cold_picks \<le> nat (?n div 2)" unfolding cp by simp
  have len: "int (length (hot_picks @ cold_picks)) \<le> ?n" using lh lc n by auto
  have fits: "?n \<le> int (length [mn..mx])" using profile_fits[OF r] by linarith
  obtain rest g' where
    f: "fill_remaining mn mx ?n (hot_picks @ cold_picks) g = Inr ((hot_picks @ cold_picks) @ rest, g')"
    and l: "int (length ((hot_picks @ cold_picks) @ rest)) =
              max (int (length (hot_picks @ cold_picks))) ?n"
    and d: "distinct rest"
    and s: "set rest \<subseteq> {mn..mx} - set (hot_picks @ cold_picks)"
    using fill_remaining_total[OF fits, of "hot_picks @ cold_picks" g] by blast
  let ?sel = "(hot_picks @ cold_picks) @ rest"
  have g: "generate_frequency_based_entry db lt ''balanced'' g = Inr (sort ?sel, g')"
    unfolding generate_balanced[OF ne r] hot[symmetric] cold[symmetric] f by simp
  have "int (length (sort ?sel)) = ?n" using l len by simp
  moreover have "distinct (sort ?sel)" using dh dc d s disjoint by auto
  moreover have "sorted (sort ?sel)" by simp
  moreover have "set (sort ?sel) \<subseteq> {mn..mx}" using sh sc s by auto
  ultimately show ?thesis using g by blast
qed

subsection \<open>Every strategy stays within the range of a table that does\<close>

lemma set_py_take: "set (py_take k xs) \<subseteq> set xs"
  by (simp add: py_take_def set_take_subset)

lemma ranking_subset:
  "set (get_most_frequent_numbers db lt k) \<subseteq> set (calculate_frequency db lt)"
  "set (get_least_frequent_numbers db lt k) \<subseteq> set (calculate_frequency db lt)"
  using set_py_take[of k "py_sorted snd True (calculate_frequency db lt)"]
    set_py_take[of k "py_sorted snd False (calculate_frequency db lt)"]
  by (simp_all add: get_most_frequent_numbers_def get_least_frequent_numbers_def set_py_sorted)

lemma generate_within_range:
  assumes gen: "generate_frequency_based_entry db lt s g = Inr (xs, g')"
    and r: "get_number_ranges lt = (mn, mx)"
    and keys: "fst ` set (calculate_frequency db lt) \<subseteq> {mn..mx}"
  shows "set xs \<subseteq> {mn..mx}"
proof -
  let ?n = "numbers_needed lt"
  have most: "set (map fst (get_most_frequent_numbers db lt k)) \<subseteq> {mn..mx}" for k
    using ranking_subset(1)[of db lt k] keys by auto
  have least: "set (map fst (get_least_frequent_numbers db lt k)) \<subseteq> {mn..mx}" for k
    using ranking_subset(2)[of db lt k] keys by auto
  have empty: "set xs \<subseteq> {mn..mx}"
    if e: "calculate_frequency db lt = []"
      and "generate_frequency_based_entry db lt s' g = Inr (xs, g')" for s'
    using that(2) sample_entry_valid(4)[OF r, of g] unfolding generate_empty[OF e r] by auto
  have bal: "set xs \<subseteq> {mn..mx}"
    if b: "generate_frequency_based_entry db lt ''balanced'' g = Inr (xs, g')"
  proof (cases "calculate_frequency db lt = []")
    case True
    then show ?thesis using b by (rule empty)
  next
    case False
    let ?hot = "map fst (py_take (?n div 2) (get_most_frequent_numbers db lt ?n))"
    let ?cold = "map fst (py_take (?n div 2) (get_least_frequent_numbers db lt ?n))"
    have sh: "set ?hot \<subseteq> {mn..mx}"
      using set_py_take[of "?n div 2" "get_most_frequent_numbers db lt ?n"] most[of ?n] by auto
    have sc: "set ?cold \<subseteq> {mn..mx}"
      using set_py_take[of "?n div 2" "get_least_frequent_numbers db lt ?n"] least[of ?n] by auto
    have fits: "?n \<le> int (length [mn..mx])" using profile_fits[OF r] by linarith
    obtain rest g1 where
      f: "fill_remaining mn mx ?n (?hot @ ?cold) g = Inr ((?hot @ ?cold) @ rest, g1)"
      and s: "set rest \<subseteq> {mn..mx} - set (?hot @ ?cold)"
      using fill_remaining_total[OF fits, of "?hot @ ?cold" g] by blast
    have "xs = sort ((?hot @ ?cold) @ rest)"
      using b unfolding generate_balanced[OF False r] f by simp
    then show ?thesis using sh sc s by auto
  qed
  consider "s = ''hot''" | "s = ''cold''" | "s = ''balanced''" | "s = ''random''"
    | "s \<noteq> ''hot''" "s \<noteq> ''cold''" "s \<noteq> ''balanced''" "s \<noteq> ''random''"
    by blast
  then show ?thesis
  proof cases
    case 1
    show ?thesis
    proof (cases "calculate_frequency db lt = []")
      case True
      then show ?thesis using gen by (rule empty)
    next
      case False
      let ?sel = "py_take (?n - 1) (map fst (get_most_frequent_numbers db lt (?n * 2)))"
      let ?pool = "remaining_pool mn mx ?sel"
      note h = generate_hot[OF False r refl refl]
      have "?pool ! (g 0 mod length ?pool) \<in> set ?pool" using h(1) by (rule random_choice_in_pool)
      then have x: "?pool ! (g 0 mod length ?pool) \<in> {mn..mx}" by (simp add: set_remaining_pool)
      have ss: "set ?sel \<subseteq> {mn..mx}"
        using set_py_take[of "?n - 1" "map fst (get_most_frequent_numbers db lt (?n * 2))"]
          most[of "?n * 2"] by blast
      have "xs = sort (?sel @ [?pool ! (g 0 mod length ?pool)])"
        using gen unfolding 1 h(2) by simp
      then show ?thesis using ss x by auto
    qed
  next
    case 2
    show ?thesis
    proof (cases "calculate_frequency db lt = []")
      case True
      then show ?thesis using gen by (rule empty)
    next
      case False
      have "xs = sort (py_take ?n (map fst (get_least_frequent_numbers db lt (?n * 2))))"
        using gen unfolding 2 generate_cold[OF False] by simp
      then show ?thesis
        using set_py_take[of ?n "map fst (get_least_frequent_numbers db lt (?n * 2))"]
          least[of "?n * 2"] by auto
    qed
  next
    case 3
    then show ?thesis using bal gen by simp
  next
    case 4
    show ?thesis using gen sample_entry_valid(4)[OF r, of g]
      unfolding 4 generate_random[OF r] by auto
  next
    case 5
    show ?thesis using bal gen unfolding generate_unknown[OF 5] by simp
  qed
qed

section \<open>Where the generator departs from the specification\<close>

lemma eval_short_table_cold:
  "sort (py_take (numbers_needed ''lotto649'')
     (map fst (get_least_frequent_numbers (single_table ''lotto649'' [Some ''5,7,5,9''])
        ''lotto649'' (numbers_needed ''lotto649'' * 2)))) = [5, 7, 9]"
  by code_simp

lemma short_table_cold:
  "generate_frequency_based_entry
     (single_table ''lotto649'' [Some ''5,7,5,9'']) ''lotto649'' ''cold'' g = Inr ([5, 7, 9], g)"
proof -
  have ne: "calculate_frequency (single_table ''lotto649'' [Some ''5,7,5,9'']) ''lotto649'' \<noteq> []"
    by (simp add: eval_ranking_table)
  show ?thesis unfolding generate_cold[OF ne] eval_short_table_cold by (rule refl)
qed

text \<open>
  Claim C1, at a failing input. The store holds one well-formed draw of lotto649,
  \<^verbatim>\<open>"1,2,3,4,5,6"\<close>, so the table is not empty and all six counts are equal. The stable
  descending and ascending sorts then both keep the order of the table, the three hot picks and
  the three cold picks of the balanced strategy are the same numbers 1, 2, 3, the list
  already has six elements, the fill loop adds nothing, and the entry repeats each number:
  it is sorted and within 1..49 but not an entry of six distinct numbers.
\<close>

theorem balanced_entry_repeats_numbers:
  "calculate_frequency (single_table ''lotto649'' [Some ''1,2,3,4,5,6'']) ''lotto649'' \<noteq> []
   \<and> generate_frequency_based_entry
        (single_table ''lotto649'' [Some ''1,2,3,4,5,6'']) ''lotto649'' ''balanced'' g =
      Inr ([1, 1, 2, 2, 3, 3], g)
   \<and> \<not> distinct [1, 1, 2, 2, 3, 3 :: int]
   \<and> numbers_needed ''lotto649'' = 6"
  using one_draw_nonempty one_draw_balanced[of g] by (simp add: numbers_needed_def)

lemma eval_no_rows_powerball:
  "calculate_frequency (single_table ''powerball'' []) ''powerball'' = []"
  by code_simp

lemma eval_range_powerball: "get_number_ranges ''powerball'' = (1, 49)"
  by (simp add: get_number_ranges_def)

lemma eval_needed_powerball: "numbers_needed ''powerball'' = 7"
  by (simp add: numbers_needed_def)

text \<open>
  Claim C2, at a failing input. The two known identifiers have the profiles 1..49 with 6
  numbers and 1..50 with 7 numbers. For the unknown identifier \<^verbatim>\<open>powerball\<close> the range is
  the default 1..49 of \<^verbatim>\<open>get_number_ranges\<close>, but the count is 7: the expression
  \<^verbatim>\<open>6 if lottery_type == "lotto649" else 7\<close> gives every other identifier the count of
  lottomax, and an entry generated for it has seven numbers of 1..49.
\<close>

theorem unknown_lottery_mixes_profiles:
  "get_number_ranges ''lotto649'' = (1, 49) \<and> numbers_needed ''lotto649'' = 6
   \<and> get_number_ranges ''lottomax'' = (1, 50) \<and> numbers_needed ''lottomax'' = 7
   \<and> get_number_ranges ''powerball'' = (1, 49) \<and> numbers_needed ''powerball'' = 7
   \<and> (\<exists>xs g'. generate_frequency_based_entry
                  (single_table ''powerball'' []) ''powerball'' ''random'' g = Inr (xs, g')
          \<and> length xs = 7 \<and> distinct xs \<and> set xs \<subseteq> {1..49})"
proof -
  note v = sample_entry_valid[OF eval_range_powerball, of g]
  have "generate_frequency_based_entry
          (single_table ''powerball'' []) ''powerball'' ''random'' g =
        Inr (sort (fst (sample_loop [1..49] (nat (numbers_needed ''powerball'')) g)),
             snd (sample_loop [1..49] (nat (numbers_needed ''powerball'')) g))"
    by (rule generate_random[OF eval_range_powerball])
  moreover have
    "length (sort (fst (sample_loop [1..49] (nat (numbers_needed ''powerball'')) g))) = 7"
    using v(1) by (simp add: eval_needed_powerball)
  ultimately have
    "\<exists>xs g'. generate_frequency_based_entry
                  (single_table ''powerball'' []) ''powerball'' ''random'' g = Inr (xs, g')
          \<and> length xs = 7 \<and> distinct xs \<and> set xs \<subseteq> {1..49}"
    using v(2,4) by blast
  then show ?thesis
    by (simp add: get_number_ranges_def numbers_needed_def)
qed

end
